theory Spec2Isabelle
  imports Main "HOL-Library.Word" "HOL-Library.Multiset"
begin

section \<open>Values of the program\<close>

text \<open>
  A Python \<open>bytes\<close> object is a list of 8-bit words. A Python \<open>str\<close> is a list of
  Unicode code points (naturals): it may hold lone surrogates, which is what makes
  \<open>str.encode\<close> fallible. Passwords are built from the four constant ASCII character
  sets only, so they are HOL strings. The Python \<open>int\<close> \<open>length\<close> is an \<open>int\<close>.
\<close>

type_synonym byte = "8 word"
type_synonym bytes = "byte list"
type_synonym pystr = "nat list"

datatype py_exception = OverflowError | UnicodeEncodeError nat

text \<open>
  A call either returns a value, raises, or never returns.
\<close>

datatype 'a outcome = Returns 'a | Raises py_exception | Diverges

section \<open>password\_generator.py: constants\<close>

definition DEFAULT_PBKDF2_ITERATIONS :: nat where
  "DEFAULT_PBKDF2_ITERATIONS = 200000"

definition UPPERCASE_CHARS :: string where
  "UPPERCASE_CHARS = ''ABCDEFGHIJKLMNOPQRSTUVWXYZ''"

definition LOWERCASE_CHARS :: string where
  "LOWERCASE_CHARS = ''abcdefghijklmnopqrstuvwxyz''"

definition DIGIT_CHARS :: string where
  "DIGIT_CHARS = ''0123456789''"

definition SYMBOL_CHARS :: string where
  "SYMBOL_CHARS = ''!@#$%^&*()_+-=[]{}|;:,.<>?''"

definition char_sets :: "string list" where
  "char_sets = [UPPERCASE_CHARS, LOWERCASE_CHARS, DIGIT_CHARS, SYMBOL_CHARS]"

definition all_chars :: string where
  "all_chars = concat char_sets"

section \<open>password\_generator.py: the password mapper\<close>

text \<open>
  Step 1 of \<open>_map_to_password\<close>: one character of each set, while key bytes remain.
  The state is the password buffer and \<open>key_index\<close>. The index into the character set
  is a remainder modulo its length, so it is always in range.
\<close>

definition step1_body :: "bytes \<Rightarrow> string \<Rightarrow> string \<times> nat \<Rightarrow> string \<times> nat" where
  "step1_body key_material char_set st =
     (case st of (password, key_index) \<Rightarrow>
        if key_index < length key_material
        then (password @ [char_set ! (unat (key_material ! key_index) mod length char_set)],
              key_index + 1)
        else (password, key_index))"

definition step1 :: "bytes \<Rightarrow> string \<times> nat" where
  "step1 key_material = fold (step1_body key_material) char_sets ([], 0)"

text \<open>
  Step 2: fill from \<open>all_chars\<close> while the buffer is short and key bytes remain.
\<close>

function step2 :: "bytes \<Rightarrow> int \<Rightarrow> string \<times> nat \<Rightarrow> string \<times> nat" where
  "step2 key_material len (password, key_index) =
     (if int (length password) < len \<and> key_index < length key_material
      then step2 key_material len
             (password @ [all_chars ! (unat (key_material ! key_index) mod length all_chars)],
              key_index + 1)
      else (password, key_index))"
  by pat_completeness auto
termination
  by (relation "measure (\<lambda>(key_material, len, password, key_index).
        length key_material - key_index)") auto

declare step2.simps [simp del]

text \<open>
  \<open>int.to_bytes(nbytes, 'big')\<close> for a non-negative integer: OverflowError when the value
  does not fit.
\<close>

definition to_bytes_big :: "nat \<Rightarrow> nat \<Rightarrow> py_exception + bytes" where
  "to_bytes_big n nbytes =
     (if 256 ^ nbytes \<le> n then Inl OverflowError
      else Inr (map (\<lambda>i. of_nat (n div 256 ^ (nbytes - 1 - i))) [0..<nbytes]))"

text \<open>
  Step 3, the inner \<open>for byte_val in extended_key\<close> loop with its \<open>break\<close>.
\<close>

fun extend_password :: "bytes \<Rightarrow> int \<Rightarrow> string \<Rightarrow> string" where
  "extend_password [] len password = password"
| "extend_password (byte_val # rest) len password =
     (if len \<le> int (length password) then password
      else extend_password rest len
             (password @ [all_chars ! (unat byte_val mod length all_chars)]))"

lemma extend_password_length_ge: "length password \<le> length (extend_password bs len password)"
  by (induction bs len password rule: extend_password.induct) auto

lemma extend_password_grows:
  "bs \<noteq> [] \<Longrightarrow> int (length password) < len \<Longrightarrow>
   length password < length (extend_password bs len password)"
proof (cases bs)
  case Nil
  assume "bs \<noteq> []"
  with Nil show ?thesis by simp
next
  case (Cons b rest)
  assume "int (length password) < len"
  with Cons extend_password_length_ge [of "password @ [all_chars ! (unat b mod length all_chars)]" rest len]
  show ?thesis by simp
qed

lemma extend_password_length_le:
  "int (length password) \<le> len \<Longrightarrow> int (length (extend_password bs len password)) \<le> len"
  by (induction bs len password rule: extend_password.induct) auto

text \<open>
  Step 3, the outer \<open>while len(password) < length\<close> loop. The hash function of hashlib
  is the parameter \<open>sha256\<close>. Were a digest empty, the body would leave the buffer as it
  is and the loop would run forever: that is \<open>Diverges\<close>.
\<close>

function step3 :: "(bytes \<Rightarrow> bytes) \<Rightarrow> bytes \<Rightarrow> int \<Rightarrow> string \<Rightarrow> string outcome" where
  "step3 sha256 key_material len password =
     (if int (length password) < len
      then (case to_bytes_big (length password) 4 of
              Inl e \<Rightarrow> Raises e
            | Inr counter \<Rightarrow>
                (let extended_key = sha256 (key_material @ counter)
                 in if extended_key = [] then Diverges
                    else step3 sha256 key_material len
                           (extend_password extended_key len password)))
      else Returns password)"
  by pat_completeness auto
termination
proof (relation "measure (\<lambda>(sha256, key_material, len, password). nat len - length password)")
  show "wf (measure (\<lambda>(sha256 :: bytes \<Rightarrow> bytes, key_material :: bytes, len :: int, password :: string).
              nat len - length password))"
    by simp
next
  fix sha256 :: "bytes \<Rightarrow> bytes" and key_material :: bytes and len :: int
    and password :: string and counter extended_key
  assume short: "int (length password) < len"
    and ek: "extended_key = sha256 (key_material @ counter)"
    and ne: "extended_key \<noteq> []"
  from extend_password_grows [OF ne short]
  have "length password < length (extend_password extended_key len password)" .
  moreover from short have "length password < nat len" by linarith
  ultimately show "((sha256, key_material, len, extend_password extended_key len password),
                    (sha256, key_material, len, password))
        \<in> measure (\<lambda>(sha256, key_material, len, password). nat len - length password)"
    by simp
qed

declare step3.simps [simp del]

text \<open>
  Step 4: the shuffle. \<open>range(len(password))\<close> is fixed when the loop starts; the swap
  is a tuple assignment, so both reads happen before both writes.
\<close>

definition swap_body :: "bytes \<Rightarrow> nat \<Rightarrow> string \<Rightarrow> string" where
  "swap_body key_material i password =
     (if i < length key_material
      then (let j = unat (key_material ! i) mod length password
            in password[i := password ! j, j := password ! i])
      else password)"

definition step4 :: "bytes \<Rightarrow> string \<Rightarrow> string" where
  "step4 key_material password = fold (swap_body key_material) [0..<length password] password"

text \<open>
  The slice \<open>xs[:n]\<close>: a negative bound counts from the end.
\<close>

definition slice_to :: "'a list \<Rightarrow> int \<Rightarrow> 'a list" where
  "slice_to xs n = (if 0 \<le> n then take (nat n) xs else take (nat (int (length xs) + n)) xs)"

definition map_to_password :: "(bytes \<Rightarrow> bytes) \<Rightarrow> bytes \<Rightarrow> int \<Rightarrow> string outcome" where
  "map_to_password sha256 key_material len =
     (case step3 sha256 key_material len (fst (step2 key_material len (step1 key_material))) of
        Returns password \<Rightarrow> Returns (slice_to (step4 key_material password) len)
      | Raises e \<Rightarrow> Raises e
      | Diverges \<Rightarrow> Diverges)"

text \<open>
  The password holds a character of a set; it holds one of each of the four sets.
\<close>

definition has_char_of :: "string \<Rightarrow> string \<Rightarrow> bool" where
  "has_char_of char_set password = list_ex (\<lambda>c. c \<in> set char_set) password"

definition class_coverage :: "string \<Rightarrow> bool" where
  "class_coverage password =
     (has_char_of UPPERCASE_CHARS password \<and> has_char_of LOWERCASE_CHARS password \<and>
      has_char_of DIGIT_CHARS password \<and> has_char_of SYMBOL_CHARS password)"

section \<open>Facts about the four steps\<close>

lemma step1_four:
  "4 \<le> length km \<Longrightarrow>
   step1 km = ([UPPERCASE_CHARS ! (unat (km ! 0) mod length UPPERCASE_CHARS),
                LOWERCASE_CHARS ! (unat (km ! 1) mod length LOWERCASE_CHARS),
                DIGIT_CHARS ! (unat (km ! 2) mod length DIGIT_CHARS),
                SYMBOL_CHARS ! (unat (km ! 3) mod length SYMBOL_CHARS)], 4)"
  by (auto simp: step1_def char_sets_def step1_body_def numeral_2_eq_2 numeral_3_eq_3)

lemma upt_0_4: "[0..<4] = [0, 1, 2, 3::nat]"
  by code_simp

lemma to_bytes_big_4:
  "n < 4294967296 \<Longrightarrow> to_bytes_big n 4 =
     Inr [of_nat (n div 16777216), of_nat (n div 65536), of_nat (n div 256), of_nat n]"
  by (simp add: to_bytes_big_def upt_0_4)

lemma to_bytes_big_4_overflow:
  "4294967296 \<le> n \<Longrightarrow> to_bytes_big n 4 = Inl OverflowError"
  by (simp add: to_bytes_big_def)

lemma step2_prefix: "\<exists>q. fst (step2 km len (p, k)) = p @ q"
proof (induction km len "(p, k)" arbitrary: p k rule: step2.induct)
  case (1 km len p k)
  show ?case
  proof (cases "int (length p) < len \<and> k < length km")
    case True
    from "1" [OF True] obtain q where
      "fst (step2 km len (p @ [all_chars ! (unat (km ! k) mod length all_chars)], k + 1))
        = (p @ [all_chars ! (unat (km ! k) mod length all_chars)]) @ q" by blast
    with True show ?thesis by (subst step2.simps) simp
  next
    case False
    then show ?thesis by (subst step2.simps) auto
  qed
qed

lemma step2_length:
  "length (fst (step2 km len (p, k))) =
     (if int (length p) < len then min (nat len) (length p + (length km - k)) else length p)"
proof (induction km len "(p, k)" arbitrary: p k rule: step2.induct)
  case (1 km len p k)
  show ?case
  proof (cases "int (length p) < len \<and> k < length km")
    case True
    let ?p' = "p @ [all_chars ! (unat (km ! k) mod length all_chars)]"
    have eq: "step2 km len (p, k) = step2 km len (?p', k + 1)"
      using True by (subst step2.simps) simp
    have ih: "length (fst (step2 km len (?p', k + 1))) =
      (if int (length ?p') < len then min (nat len) (length ?p' + (length km - (k + 1)))
       else length ?p')"
      by (rule "1" [OF True])
    show ?thesis unfolding eq ih using True by (simp add: min_def) linarith
  next
    case False
    have eq: "step2 km len (p, k) = (p, k)"
      using False by (subst step2.simps) auto
    show ?thesis unfolding eq using False by (simp add: min_def) linarith
  qed
qed

lemma extend_password_take:
  "extend_password bs len p =
     p @ map (\<lambda>b. all_chars ! (unat b mod length all_chars)) (take (nat (len - int (length p))) bs)"
proof (induction bs len p rule: extend_password.induct)
  case (1 len password)
  show ?case by simp
next
  case (2 byte_val rest len password)
  show ?case
  proof (cases "len \<le> int (length password)")
    case True
    then show ?thesis by simp
  next
    case False
    then have "nat (len - int (length password)) = Suc (nat (len - (1 + int (length password))))"
      by linarith
    then show ?thesis using False "2" [OF False] by simp
  qed
qed

lemma step3_returns:
  assumes H: "\<forall>x. H x \<noteq> []" and bound: "len \<le> 4294967296"
  shows "int (length p) \<le> len \<Longrightarrow>
     \<exists>q. step3 H km len p = Returns (p @ q) \<and> int (length (p @ q)) = len"
  using H bound
proof (induction H km len p rule: step3.induct)
  case (1 sha256 key_material len password)
  show ?case
  proof (cases "int (length password) < len")
    case False
    with "1.prems" have "int (length password) = len" by simp
    moreover have "step3 sha256 key_material len password = Returns password"
      using False by (subst step3.simps) simp
    ultimately show ?thesis by simp
  next
    case True
    with "1.prems" have small: "length password < 4294967296" by linarith
    let ?counter = "[of_nat (length password div 16777216), of_nat (length password div 65536),
        of_nat (length password div 256), of_nat (length password)] :: bytes"
    let ?ek = "sha256 (key_material @ ?counter)"
    let ?p' = "extend_password ?ek len password"
    have tb: "to_bytes_big (length password) 4 = Inr ?counter"
      by (rule to_bytes_big_4 [OF small])
    have ne: "?ek \<noteq> []" using "1.prems" by blast
    have unfold: "step3 sha256 key_material len password = step3 sha256 key_material len ?p'"
      using True ne tb by (subst step3.simps) (simp add: Let_def)
    have le: "int (length ?p') \<le> len"
      using True by (intro extend_password_length_le) simp
    from "1.IH" [OF True tb refl ne le "1.prems"(2) "1.prems"(3)]
    obtain q where q: "step3 sha256 key_material len ?p' = Returns (?p' @ q)"
      "int (length (?p' @ q)) = len" by blast
    obtain r where r: "?p' = password @ r" using extend_password_take by blast
    show ?thesis unfolding unfold using q r by auto
  qed
qed

lemma swap_body_length: "length (swap_body km i p) = length p"
  by (simp add: swap_body_def Let_def)

lemma swap_body_mset: "i < length p \<Longrightarrow> mset (swap_body km i p) = mset p"
proof (cases "i < length km")
  case False
  then show ?thesis by (simp add: swap_body_def)
next
  case True
  assume i: "i < length p"
  let ?j = "unat (km ! i) mod length p"
  from i have "0 < length p" by (cases p) auto
  then have j: "?j < length p" by (rule mod_less_divisor)
  have "mset (p[i := p ! ?j, ?j := p ! i]) = mset p"
    by (rule mset_swap [OF j i])
  with True show ?thesis by (simp add: swap_body_def Let_def)
qed

lemma fold_swap_body:
  "\<forall>i \<in> set is. i < length p \<Longrightarrow>
   length (fold (swap_body km) is p) = length p \<and> mset (fold (swap_body km) is p) = mset p"
proof (induction "is" arbitrary: p)
  case Nil
  show ?case by simp
next
  case (Cons i "is")
  have "\<forall>k \<in> set is. k < length (swap_body km i p)"
    using Cons.prems by (simp add: swap_body_length)
  from Cons.IH [OF this] Cons.prems show ?case
    by (simp add: swap_body_length swap_body_mset)
qed

lemma step4_length: "length (step4 km p) = length p"
  unfolding step4_def using fold_swap_body [of "[0..<length p]" p km] by simp

lemma step4_mset: "mset (step4 km p) = mset p"
  unfolding step4_def using fold_swap_body [of "[0..<length p]" p km] by simp

lemma step4_set: "set (step4 km p) = set p"
  using step4_mset [of km p] by (metis set_mset_mset)

lemma slice_to_full: "int (length xs) = n \<Longrightarrow> slice_to xs n = xs"
  by (auto simp: slice_to_def)

text \<open>The buffer after steps 1 to 3, for 64 bytes of key material.\<close>

lemma steps123:
  assumes km: "length km = 64" and H: "\<forall>x. H x \<noteq> []"
    and lo: "4 \<le> len" and hi: "len \<le> 4294967296"
  shows "\<exists>q. step3 H km len (fst (step2 km len (step1 km))) =
            Returns (fst (step1 km) @ q) \<and> int (length (fst (step1 km) @ q)) = len"
proof -
  have s1: "step1 km = (fst (step1 km), 4)" and l1: "length (fst (step1 km)) = 4"
    using step1_four [of km] km by simp_all
  obtain r where r: "fst (step2 km len (fst (step1 km), 4)) = fst (step1 km) @ r"
    using step2_prefix by blast
  have "int (length (fst (step2 km len (fst (step1 km), 4)))) \<le> len"
    using step2_length [of km len "fst (step1 km)" 4] l1 lo by (simp add: min_def) linarith
  from step3_returns [OF H hi this]
  obtain q where "step3 H km len (fst (step2 km len (fst (step1 km), 4))) =
      Returns (fst (step2 km len (fst (step1 km), 4)) @ q)"
    "int (length (fst (step2 km len (fst (step1 km), 4)) @ q)) = len" by blast
  then have "step3 H km len (fst (step2 km len (step1 km))) = Returns (fst (step1 km) @ (r @ q))
      \<and> int (length (fst (step1 km) @ (r @ q))) = len"
    using r s1 by simp
  then show ?thesis by blast
qed

lemma map_to_password_returns:
  assumes km: "length km = 64" and H: "\<forall>x. H x \<noteq> []"
    and lo: "4 \<le> len" and hi: "len \<le> 4294967296"
  shows "\<exists>q. map_to_password H km len = Returns (step4 km (fst (step1 km) @ q))
            \<and> int (length (fst (step1 km) @ q)) = len"
proof -
  from steps123 [OF km H lo hi] obtain q where
    q: "step3 H km len (fst (step2 km len (step1 km))) = Returns (fst (step1 km) @ q)"
       "int (length (fst (step1 km) @ q)) = len" by blast
  have "int (length (step4 km (fst (step1 km) @ q))) = len"
    using q(2) by (simp add: step4_length)
  then have "slice_to (step4 km (fst (step1 km) @ q)) len = step4 km (fst (step1 km) @ q)"
    by (rule slice_to_full)
  with q show ?thesis by (auto simp: map_to_password_def)
qed

section \<open>Sample inputs\<close>

text \<open>
  A stand-in for the hash function with 32-byte digests, and 64 bytes of key material.
\<close>

definition sample_sha256 :: "bytes \<Rightarrow> bytes" where
  "sample_sha256 data = map (\<lambda>i. of_nat (7 * i + length data)) [0..<32]"

definition sample_key_material :: bytes where
  "sample_key_material = map (\<lambda>i. of_nat (37 * i + 11)) [0..<64]"

lemma sample_sha256_size: "\<forall>x. length (sample_sha256 x) = 32"
  by (simp add: sample_sha256_def)

lemma sample_key_material_size: "length sample_key_material = 64"
  by (simp add: sample_key_material_def)

lemma digest_nonempty: "\<forall>x. length (H x) = 32 \<Longrightarrow> \<forall>x. H x \<noteq> ([] :: bytes)"
  by (metis length_0_conv zero_neq_numeral)

lemma step3_result:
  "step3 H km len p = Returns r \<Longrightarrow>
     \<exists>q. r = p @ q \<and> (int (length p) \<le> len \<longrightarrow> int (length r) = len)"
proof (induction H km len p rule: step3.induct)
  case (1 sha256 key_material len password)
  show ?case
  proof (cases "int (length password) < len")
    case False
    then have "step3 sha256 key_material len password = Returns password"
      by (subst step3.simps) simp
    with "1.prems" False show ?thesis by simp
  next
    case True
    show ?thesis
    proof (cases "to_bytes_big (length password) 4")
      case (Inl e)
      with True have "step3 sha256 key_material len password = Raises e"
        by (subst step3.simps) simp
      with "1.prems" show ?thesis by simp
    next
      case (Inr counter)
      let ?ek = "sha256 (key_material @ counter)"
      let ?p' = "extend_password ?ek len password"
      show ?thesis
      proof (cases "?ek = []")
        case empty: True
        with True Inr have "step3 sha256 key_material len password = Diverges"
          by (subst step3.simps) simp
        with "1.prems" show ?thesis by simp
      next
        case ne: False
        with True Inr have "step3 sha256 key_material len password = step3 sha256 key_material len ?p'"
          by (subst step3.simps) (simp add: Let_def)
        with "1.prems" have ret: "step3 sha256 key_material len ?p' = Returns r" by simp
        from "1.IH" [OF True Inr refl ne ret] obtain q where
          q: "r = ?p' @ q" "int (length ?p') \<le> len \<longrightarrow> int (length r) = len" by blast
        have le: "int (length ?p') \<le> len"
          using True by (intro extend_password_length_le) simp
        obtain t where t: "?p' = password @ t" using extend_password_take by blast
        from q le t show ?thesis by auto
      qed
    qed
  qed
qed

lemma step3_no_divergence:
  "\<forall>x. H x \<noteq> [] \<Longrightarrow> step3 H km len p \<noteq> Diverges"
proof (induction H km len p rule: step3.induct)
  case (1 sha256 key_material len password)
  show ?case
  proof (cases "int (length password) < len")
    case False
    then have "step3 sha256 key_material len password = Returns password"
      by (subst step3.simps) simp
    then show ?thesis by simp
  next
    case True
    show ?thesis
    proof (cases "to_bytes_big (length password) 4")
      case (Inl e)
      with True have "step3 sha256 key_material len password = Raises e"
        by (subst step3.simps) simp
      then show ?thesis by simp
    next
      case (Inr counter)
      let ?ek = "sha256 (key_material @ counter)"
      have ne: "?ek \<noteq> []" using "1.prems" by blast
      with True Inr have "step3 sha256 key_material len password =
          step3 sha256 key_material len (extend_password ?ek len password)"
        by (subst step3.simps) (simp add: Let_def)
      with "1.IH" [OF True Inr refl ne "1.prems"] show ?thesis by simp
    qed
  qed
qed

lemma map_to_password_shape:
  assumes km: "length km = 64" and lo: "4 \<le> len"
    and ret: "map_to_password H km len = Returns pw"
  shows "\<exists>q. pw = step4 km (fst (step1 km) @ q) \<and> int (length (fst (step1 km) @ q)) = len"
proof -
  have s1: "step1 km = (fst (step1 km), 4)" and l1: "length (fst (step1 km)) = 4"
    using step1_four [of km] km by simp_all
  let ?b = "fst (step2 km len (fst (step1 km), 4))"
  obtain r where r: "?b = fst (step1 km) @ r"
    using step2_prefix by blast
  have le: "int (length ?b) \<le> len"
    using step2_length [of km len "fst (step1 km)" 4] l1 lo by (simp add: min_def) linarith
  from ret obtain buf where buf: "step3 H km len (fst (step2 km len (step1 km))) = Returns buf"
    and pw: "pw = slice_to (step4 km buf) len"
    by (auto simp: map_to_password_def split: outcome.splits)
  from buf s1 have "step3 H km len ?b = Returns buf" by simp
  from step3_result [OF this] le obtain q where q: "buf = ?b @ q" "int (length buf) = len"
    by blast
  have "int (length (step4 km buf)) = len" using q(2) by (simp add: step4_length)
  then have "slice_to (step4 km buf) len = step4 km buf" by (rule slice_to_full)
  with pw q r have "pw = step4 km (fst (step1 km) @ (r @ q))
      \<and> int (length (fst (step1 km) @ (r @ q))) = len" by simp
  then show ?thesis by blast
qed

lemma has_char_of_iff: "has_char_of cs p \<longleftrightarrow> set p \<inter> set cs \<noteq> {}"
  by (auto simp: has_char_of_def list_ex_iff)

lemma nth_mod_mem: "cs \<noteq> [] \<Longrightarrow> cs ! (n mod length cs) \<in> set cs"
  by (simp add: nth_mem)

lemma step1_coverage: "4 \<le> length km \<Longrightarrow> class_coverage (fst (step1 km) @ q)"
proof -
  assume "4 \<le> length km"
  note s = step1_four [OF this]
  have "UPPERCASE_CHARS \<noteq> []" "LOWERCASE_CHARS \<noteq> []" "DIGIT_CHARS \<noteq> []" "SYMBOL_CHARS \<noteq> []"
    by (simp_all add: UPPERCASE_CHARS_def LOWERCASE_CHARS_def DIGIT_CHARS_def SYMBOL_CHARS_def)
  then have "UPPERCASE_CHARS ! (unat (km ! 0) mod length UPPERCASE_CHARS) \<in> set UPPERCASE_CHARS"
    "LOWERCASE_CHARS ! (unat (km ! 1) mod length LOWERCASE_CHARS) \<in> set LOWERCASE_CHARS"
    "DIGIT_CHARS ! (unat (km ! 2) mod length DIGIT_CHARS) \<in> set DIGIT_CHARS"
    "SYMBOL_CHARS ! (unat (km ! 3) mod length SYMBOL_CHARS) \<in> set SYMBOL_CHARS"
    by (simp_all add: nth_mod_mem del: nth_mem)
  then show ?thesis
    unfolding class_coverage_def has_char_of_iff s by auto
qed

lemma class_coverage_set: "set p = set p' \<Longrightarrow> class_coverage p = class_coverage p'"
  by (simp add: class_coverage_def has_char_of_iff)

section \<open>The claims\<close>

text \<open>
  C1. For every length from 8 to 128 and every 64-byte key material, the password mapper
  returns a string of exactly \<open>length\<close> characters. The hash function is any function
  with 32-byte digests.
\<close>

theorem map_to_password_length:
  assumes "8 \<le> len" and "len \<le> 128" and "length key_material = 64"
    and "\<forall>x. length (sha256 x) = 32"
  shows "\<exists>password. map_to_password sha256 key_material len = Returns password
            \<and> int (length password) = len"
proof -
  have ne: "\<forall>x. sha256 x \<noteq> []" using assms(4) by (rule digest_nonempty)
  have lo: "4 \<le> len" and hi: "len \<le> 4294967296" using assms(1,2) by simp_all
  from map_to_password_returns [OF assms(3) ne lo hi] obtain q where
    "map_to_password sha256 key_material len = Returns (step4 key_material (fst (step1 key_material) @ q))"
    "int (length (fst (step1 key_material) @ q)) = len" by blast
  then show ?thesis by (simp add: step4_length)
qed

theorem map_to_password_length_witness:
  "(8::int) \<le> 100 \<and> (100::int) \<le> 128 \<and> length sample_key_material = 64
   \<and> (\<forall>x. length (sample_sha256 x) = 32)
   \<and> (\<exists>password. map_to_password sample_sha256 sample_key_material 100 = Returns password
          \<and> int (length password) = 100)"
  using map_to_password_length [of 100 sample_key_material sample_sha256]
    sample_sha256_size sample_key_material_size by simp

end
